theory Spec2Isabelle
  imports Main
begin

section \<open>JavaScript values\<close>

subsection \<open>Strings\<close>

text \<open>
  A JavaScript string is a sequence of UTF-16 code units, and a code unit is a natural
  number below 65536. Socket ids, room ids and the strings inside payloads are such
  sequences. \<open>utf16\<close> writes an ASCII literal as its code units. The messages of the
  \<open>error\<close> event and the reason of a disconnect are literals of the server and of its
  transport; they stay 8-bit strings.
\<close>

type_synonym js_string = "nat list"

definition utf16 :: "string \<Rightarrow> js_string" where
  "utf16 s = map of_char s"

text \<open>
  \<open>String.prototype.trim\<close> removes white space and line terminators from both ends:
  TAB, LF, VT, FF, CR, SPACE, NO-BREAK SPACE, U+1680, U+2000 to U+200A, the line and
  paragraph separators U+2028 and U+2029, U+202F, U+205F, U+3000 and U+FEFF.
\<close>

definition isWhiteSpace :: "nat \<Rightarrow> bool" where
  "isWhiteSpace u \<longleftrightarrow>
     u \<in> set [0x9, 0xA, 0xB, 0xC, 0xD, 0x20, 0xA0, 0x1680, 0x2028, 0x2029, 0x202F, 0x205F,
               0x3000, 0xFEFF]
     \<or> (0x2000 \<le> u \<and> u \<le> 0x200A)"

definition trim :: "js_string \<Rightarrow> js_string" where
  "trim s = rev (dropWhile isWhiteSpace (rev (dropWhile isWhiteSpace s)))"

text \<open>
  \<open>String.prototype.toLowerCase\<close> follows the Unicode default case conversion. It is
  written out for the strings whose code units are all in a repertoire: Latin-1
  (U+0000 to U+00FF) and the basic Greek letters (capitals U+0391 to U+03A9, small
  letters U+03B1 to U+03C9). There a capital goes to the code unit 32 above, with one
  exception that depends on the context: the capital sigma U+03A3 becomes the final
  small sigma U+03C2 when a cased letter comes before it (case-ignorable characters in
  between are skipped) and no cased letter comes after it (again skipping
  case-ignorable characters), and the small sigma U+03C3 otherwise. \<open>cased\<close> and
  \<open>caseIgnorable\<close> are the Unicode properties of these names on the repertoire.

  For a string with a code unit outside the repertoire the result is what the tables
  of the runtime give. These tables are a parameter \<open>ucd\<close> of the model. Lower-casing
  never makes a string empty, so the parameter gives the result as its first code
  unit and the rest.
\<close>

definition inRepertoire :: "nat \<Rightarrow> bool" where
  "inRepertoire u \<longleftrightarrow>
     u \<le> 0xFF \<or> (0x391 \<le> u \<and> u \<le> 0x3A9 \<and> u \<noteq> 0x3A2) \<or> (0x3B1 \<le> u \<and> u \<le> 0x3C9)"

definition lowerUnit :: "nat \<Rightarrow> nat" where
  "lowerUnit u =
     (if (0x41 \<le> u \<and> u \<le> 0x5A) \<or> (0xC0 \<le> u \<and> u \<le> 0xDE \<and> u \<noteq> 0xD7) \<or>
         (0x391 \<le> u \<and> u \<le> 0x3A9 \<and> u \<noteq> 0x3A2)
      then u + 0x20 else u)"

definition cased :: "nat \<Rightarrow> bool" where
  "cased u \<longleftrightarrow>
     (0x41 \<le> u \<and> u \<le> 0x5A) \<or> (0x61 \<le> u \<and> u \<le> 0x7A) \<or> u \<in> set [0xAA, 0xB5, 0xBA] \<or>
     (0xC0 \<le> u \<and> u \<le> 0xFF \<and> u \<noteq> 0xD7 \<and> u \<noteq> 0xF7) \<or>
     (0x391 \<le> u \<and> u \<le> 0x3A9 \<and> u \<noteq> 0x3A2) \<or> (0x3B1 \<le> u \<and> u \<le> 0x3C9)"

definition caseIgnorable :: "nat \<Rightarrow> bool" where
  "caseIgnorable u \<longleftrightarrow>
     u \<in> set [0x27, 0x2E, 0x3A, 0x5E, 0x60, 0xA8, 0xAD, 0xAF, 0xB4, 0xB7, 0xB8]"

definition casedNext :: "nat list \<Rightarrow> bool" where
  "casedNext us = (case dropWhile caseIgnorable us of [] \<Rightarrow> False | c # _ \<Rightarrow> cased c)"

text \<open>\<open>before\<close> holds the code units in front of the sigma, the nearest one first.\<close>

definition finalSigma :: "nat list \<Rightarrow> nat list \<Rightarrow> bool" where
  "finalSigma before after \<longleftrightarrow> casedNext before \<and> \<not> casedNext after"

fun lowerFrom :: "nat list \<Rightarrow> nat list \<Rightarrow> nat list" where
  "lowerFrom before [] = []"
| "lowerFrom before (u # after) =
     (if u = 0x3A3 \<and> finalSigma before after then 0x3C2 else lowerUnit u)
     # lowerFrom (u # before) after"

type_synonym unicode_tables = "js_string \<Rightarrow> nat \<times> js_string"

definition toLowerCase :: "unicode_tables \<Rightarrow> js_string \<Rightarrow> js_string" where
  "toLowerCase ucd s =
     (if list_all inRepertoire s then lowerFrom [] s
      else (let (first, more) = ucd s in first # more))"

subsection \<open>Payload values\<close>

text \<open>
  The signalling server receives JSON payloads from its clients and tests them with
  JavaScript truthiness (\<open>!to\<close>, \<open>!offer\<close>, \<open>!candidate\<close>), with \<open>typeof\<close> and with
  string methods. A payload value is therefore a small datatype of JSON values.
  Numbers are the integers (fractions and NaN are left out: no handler computes with a
  number). The keys of an object are written as 8-bit strings: the handlers read the
  properties \<open>roomId\<close>, \<open>to\<close>, \<open>offer\<close>, \<open>answer\<close> and \<open>candidate\<close> only, and a key
  with other code units is none of them.
\<close>

datatype js_value =
    Undefined
  | Null
  | Boolean bool
  | Number int
  | String js_string
  | Array "js_value list"
  | Object "(string \<times> js_value) list"

text \<open>\<open>!v\<close> is \<open>\<not> truthy v\<close>.\<close>

fun truthy :: "js_value \<Rightarrow> bool" where
  "truthy Undefined = False"
| "truthy Null = False"
| "truthy (Boolean b) = b"
| "truthy (Number n) = (n \<noteq> 0)"
| "truthy (String s) = (s \<noteq> [])"
| "truthy (Array _) = True"
| "truthy (Object _) = True"

text \<open>
  Every handler destructures its argument (\<open>({ to, offer }) => ...\<close>) before its
  \<open>try\<close> block is entered. Destructuring \<open>undefined\<close> or \<open>null\<close> throws a TypeError that
  no handler catches; the process-level \<open>uncaughtException\<close> hook then exits the process.
  On every other value a property that is not there reads as \<open>undefined\<close>
  (none of the names \<open>roomId\<close>, \<open>to\<close>, \<open>offer\<close>, \<open>answer\<close>, \<open>candidate\<close> is a property of a
  boolean, a number, a string or an array).
\<close>

datatype fault = UncaughtTypeError

definition property :: "(string \<times> js_value) list \<Rightarrow> string \<Rightarrow> js_value" where
  "property fields name = (case map_of fields name of None \<Rightarrow> Undefined | Some v \<Rightarrow> v)"

fun destructure :: "js_value \<Rightarrow> fault + (string \<Rightarrow> js_value)" where
  "destructure Undefined = Inl UncaughtTypeError"
| "destructure Null = Inl UncaughtTypeError"
| "destructure (Object fields) = Inr (property fields)"
| "destructure _ = Inr (\<lambda>name. Undefined)"

section \<open>Server state\<close>

text \<open>
  The server keeps three \<open>Map\<close>s: \<open>rooms\<close> (room id to a \<open>Set\<close> of socket ids),
  \<open>socketToRoom\<close> and \<open>userProfiles\<close>. A JavaScript \<open>Set\<close> iterates in insertion order,
  and the handlers iterate the member sets to notify peers, so a member set is a list
  without repetitions in insertion order. \<open>rooms\<close> and \<open>socketToRoom\<close> are read and
  written by key only (the one iteration over \<open>rooms\<close> deletes every empty room, whatever
  the order), so they are maps. \<open>userProfiles\<close> is iterated by the periodic cleanup, which
  emits notifications on the way, so it is an association list in insertion order.
  Timestamps are milliseconds; a handler run reads the clock once.
\<close>

record profile =
  connectedAt :: int
  lastActivity :: int
  currentRoom :: "js_string option"
  activity :: "js_value option"

record state =
  rooms :: "js_string \<rightharpoonup> js_string list"
  socketToRoom :: "js_string \<rightharpoonup> js_string"
  userProfiles :: "(js_string \<times> profile) list"

definition init :: state where
  "init = \<lparr>rooms = Map.empty, socketToRoom = Map.empty, userProfiles = []\<rparr>"

subsection \<open>\<open>Set\<close> and \<open>Map\<close> operations\<close>

definition set_add :: "js_string list \<Rightarrow> js_string \<Rightarrow> js_string list" where
  "set_add room x = (if x \<in> set room then room else room @ [x])"

definition set_delete :: "js_string list \<Rightarrow> js_string \<Rightarrow> js_string list" where
  "set_delete room x = filter (\<lambda>y. y \<noteq> x) room"

text \<open>\<open>Map.prototype.set\<close>: an existing key keeps its place, a new key goes last.\<close>

fun map_set :: "('k \<times> 'v) list \<Rightarrow> 'k \<Rightarrow> 'v \<Rightarrow> ('k \<times> 'v) list" where
  "map_set [] k v = [(k, v)]"
| "map_set ((k', v') # kvs) k v =
     (if k' = k then (k, v) # kvs else (k', v') # map_set kvs k v)"

definition map_delete :: "('k \<times> 'v) list \<Rightarrow> 'k \<Rightarrow> ('k \<times> 'v) list" where
  "map_delete kvs k = filter (\<lambda>kv. fst kv \<noteq> k) kvs"

section \<open>Emitted events\<close>

text \<open>
  \<open>roomInfo\<close> as \<open>getRoomInfo\<close> builds it; the profile of a member is
  \<open>userProfiles.get(socketId) || {}\<close>, and \<open>None\<close> stands for the empty object.
\<close>

record room_info =
  roomId :: js_string
  users :: "(js_string \<times> profile option) list"
  userCount :: nat

datatype event =
    ErrorEvent string
  | UserLeft js_string js_string nat
  | UserJoined js_string js_string "room_info option"
  | RoomJoined "room_info option"
  | IncomingCall js_string js_value int
  | CallAccepted js_string js_value int
  | IceCandidate js_value js_string
  | CallEnded js_string int
  | Pong
  | UserDisconnected js_string js_string string int

text \<open>
  An emission is recorded with the expression the code addresses it with:
  \<open>socket.emit\<close> answers the socket whose handler runs, \<open>io.to(x).emit\<close> addresses the
  channel \<open>x\<close>, and \<open>socket.to(x).emit\<close> addresses the channel \<open>x\<close> without the socket
  itself. The transport's own delivery (and \<open>socket.join\<close>, which only changes the
  transport's channel table, read by no handler) is not part of the model, and neither
  is console logging.
\<close>

datatype target =
    Socket_emit js_string
  | Io_to js_string
  | Socket_to js_string js_value

type_synonym emission = "target \<times> event"

section \<open>Utility functions\<close>

text \<open>\<open>getRoomInfo\<close>: \<open>null\<close> (here \<open>None\<close>) when the room is not in the table.\<close>

definition getRoomInfo :: "state \<Rightarrow> js_string \<Rightarrow> room_info option" where
  "getRoomInfo s rid =
     (case rooms s rid of
        None \<Rightarrow> None
      | Some room \<Rightarrow>
          Some \<lparr>roomId = rid,
                users = map (\<lambda>socketId. (socketId, map_of (userProfiles s) socketId)) room,
                userCount = length room\<rparr>)"

text \<open>\<open>cleanupRoom\<close> deletes the room when it is in the table and empty.\<close>

definition cleanupRoom :: "state \<Rightarrow> js_string \<Rightarrow> bool \<times> state" where
  "cleanupRoom s rid =
     (case rooms s rid of
        None \<Rightarrow> (False, s)
      | Some room \<Rightarrow>
          if length room = 0 then (True, s\<lparr>rooms := (rooms s)(rid := None)\<rparr>)
          else (False, s))"

text \<open>
  \<open>leaveCurrentRoom\<close> returns the room that was left (\<open>null\<close> when \<open>socketToRoom\<close> has no
  truthy entry for the socket), the new state and the \<open>user:left\<close> notifications, one
  for each member that remains, carrying the size of the room after the removal.
\<close>

definition leaveCurrentRoom :: "state \<Rightarrow> js_string \<Rightarrow> js_string option \<times> state \<times> emission list" where
  "leaveCurrentRoom s socketId =
     (case socketToRoom s socketId of
        None \<Rightarrow> (None, s, [])
      | Some current \<Rightarrow>
          if current = [] then (None, s, [])
          else
            (case rooms s current of
               None \<Rightarrow>
                 (Some current,
                  s\<lparr>socketToRoom := (socketToRoom s)(socketId := None)\<rparr>, [])
             | Some room \<Rightarrow>
                 let room' = set_delete room socketId;
                     out = map (\<lambda>otherSocketId.
                                  (Io_to otherSocketId,
                                   UserLeft socketId current (length room'))) room';
                     s1 = s\<lparr>rooms := (rooms s)(current \<mapsto> room')\<rparr>;
                     s2 = snd (cleanupRoom s1 current)
                 in (Some current,
                     s2\<lparr>socketToRoom := (socketToRoom s2)(socketId := None)\<rparr>, out)))"

text \<open>Assignments to the fields of a profile object held in \<open>userProfiles\<close>.\<close>

definition update_profile ::
  "(profile \<Rightarrow> profile) \<Rightarrow> js_string \<Rightarrow> (js_string \<times> profile) list \<Rightarrow> (js_string \<times> profile) list" where
  "update_profile f socketId ps =
     map (\<lambda>(k, p). if k = socketId then (k, f p) else (k, p)) ps"

section \<open>Socket handlers\<close>

text \<open>
  Every handler takes the state, the id of the socket it is registered on, the clock
  and the destructured fields, and returns the new state with the emissions in order.
\<close>

text \<open>\<open>io.on('connection')\<close>: the profile is stored.\<close>

definition connection :: "state \<Rightarrow> js_string \<Rightarrow> int \<Rightarrow> state \<times> emission list" where
  "connection s sid now =
     (s\<lparr>userProfiles :=
          map_set (userProfiles s) sid
            \<lparr>connectedAt = now, lastActivity = now, currentRoom = None, activity = None\<rparr>\<rparr>,
      [])"

text \<open>
  \<open>room:join\<close>. The canonical key is \<open>roomId.trim().toLowerCase()\<close>. The capacity
  check comes first and returns early; only then the current room is left and the new
  one joined. Nothing in the \<open>try\<close> block can throw, so its \<open>catch\<close> has no branch here.
\<close>

definition cleanRoomId :: "unicode_tables \<Rightarrow> js_string \<Rightarrow> js_string" where
  "cleanRoomId ucd raw = toLowerCase ucd (trim raw)"

definition room_join ::
  "unicode_tables \<Rightarrow> state \<Rightarrow> js_string \<Rightarrow> int \<Rightarrow> js_value \<Rightarrow> state \<times> emission list" where
  "room_join ucd s sid now roomId_arg =
     (case roomId_arg of
        String raw \<Rightarrow>
          if raw = [] \<or> length (trim raw) = 0
          then (s, [(Socket_emit sid, ErrorEvent ''Invalid room ID'')])
          else
            let clean = cleanRoomId ucd raw in
            if (case rooms s clean of
                  None \<Rightarrow> False
                | Some existingRoom \<Rightarrow> length existingRoom \<ge> 2 \<and> sid \<notin> set existingRoom)
            then (s, [(Socket_emit sid, ErrorEvent ''Room is full'')])
            else
              let (left, s1, out1) = leaveCurrentRoom s sid;
                  s2 = s1\<lparr>socketToRoom := (socketToRoom s1)(sid \<mapsto> clean)\<rparr>;
                  room = set_add (case rooms s2 clean of None \<Rightarrow> [] | Some r \<Rightarrow> r) sid;
                  s3 = s2\<lparr>rooms := (rooms s2)(clean \<mapsto> room)\<rparr>;
                  s4 = s3\<lparr>userProfiles :=
                           update_profile
                             (\<lambda>p. p\<lparr>lastActivity := now, currentRoom := Some clean\<rparr>)
                             sid (userProfiles s3)\<rparr>;
                  roomInfo = getRoomInfo s4 clean;
                  otherUsers = filter (\<lambda>id. id \<noteq> sid) room;
                  out2 = (case otherUsers of
                            [] \<Rightarrow> []
                          | first # _ \<Rightarrow>
                              (Socket_emit sid, UserJoined first clean roomInfo)
                              # map (\<lambda>userId. (Io_to userId, UserJoined sid clean roomInfo))
                                  otherUsers)
              in (s4, out1 @ out2 @ [(Socket_emit sid, RoomJoined roomInfo)])
      | _ \<Rightarrow> (s, [(Socket_emit sid, ErrorEvent ''Invalid room ID'')]))"

text \<open>
  \<open>outgoing:call\<close>. \<open>socketToRoom.get(to)\<close> finds an entry only for a string, the keys
  being socket ids. \<open>to.substring\<close> in the log line throws on anything but a string, and
  the \<open>catch\<close> answers with an error.
\<close>

definition room_of :: "state \<Rightarrow> js_value \<Rightarrow> js_string option" where
  "room_of s v = (case v of String k \<Rightarrow> socketToRoom s k | _ \<Rightarrow> None)"

definition is_string :: "js_value \<Rightarrow> bool" where
  "is_string v = (case v of String _ \<Rightarrow> True | _ \<Rightarrow> False)"

definition outgoing_call ::
  "state \<Rightarrow> js_string \<Rightarrow> int \<Rightarrow> js_value \<Rightarrow> js_value \<Rightarrow> state \<times> emission list" where
  "outgoing_call s sid now to offer =
     (if \<not> truthy to \<or> \<not> truthy offer
      then (s, [(Socket_emit sid, ErrorEvent ''Invalid call parameters'')])
      else
        let callerRoom = socketToRoom s sid;
            receiverRoom = room_of s to
        in if callerRoom = None \<or> callerRoom = Some [] \<or> callerRoom \<noteq> receiverRoom
           then (s, [(Socket_emit sid, ErrorEvent ''Users are not in the same room'')])
           else if \<not> is_string to
           then (s, [(Socket_emit sid, ErrorEvent ''Failed to make call'')])
           else (s, [(Socket_to sid to, IncomingCall sid offer now)]))"

text \<open>\<open>call:accepted\<close>: the parameters are checked for presence, then the answer is sent on.\<close>

definition call_accepted ::
  "state \<Rightarrow> js_string \<Rightarrow> int \<Rightarrow> js_value \<Rightarrow> js_value \<Rightarrow> state \<times> emission list" where
  "call_accepted s sid now to answer =
     (if \<not> truthy to \<or> \<not> truthy answer
      then (s, [(Socket_emit sid, ErrorEvent ''Invalid answer parameters'')])
      else if \<not> is_string to
      then (s, [(Socket_emit sid, ErrorEvent ''Failed to accept call'')])
      else (s, [(Socket_to sid to, CallAccepted sid answer now)]))"

text \<open>\<open>ice:candidate\<close>: a falsy candidate or destination is ignored.\<close>

definition ice_candidate ::
  "state \<Rightarrow> js_string \<Rightarrow> js_value \<Rightarrow> js_value \<Rightarrow> state \<times> emission list" where
  "ice_candidate s sid candidate to =
     (if \<not> truthy candidate \<or> \<not> truthy to then (s, [])
      else (s, [(Socket_to sid to, IceCandidate candidate sid)]))"

text \<open>
  \<open>call:ended\<close>: the log line reads \<open>to?.substring(0, 8)\<close>, which throws on a value
  that is neither nullish nor a string; the \<open>catch\<close> only logs.
\<close>

definition call_ended :: "state \<Rightarrow> js_string \<Rightarrow> int \<Rightarrow> js_value \<Rightarrow> state \<times> emission list" where
  "call_ended s sid now to =
     (if to \<noteq> Undefined \<and> to \<noteq> Null \<and> \<not> is_string to then (s, [])
      else if truthy to then (s, [(Socket_to sid to, CallEnded sid now)])
      else (s, []))"

definition ping :: "state \<Rightarrow> js_string \<Rightarrow> int \<Rightarrow> state \<times> emission list" where
  "ping s sid now =
     (s\<lparr>userProfiles := update_profile (\<lambda>p. p\<lparr>lastActivity := now\<rparr>) sid (userProfiles s)\<rparr>,
      [(Socket_emit sid, Pong)])"

definition user_activity :: "state \<Rightarrow> js_string \<Rightarrow> int \<Rightarrow> js_value \<Rightarrow> state \<times> emission list" where
  "user_activity s sid now data =
     (s\<lparr>userProfiles :=
          update_profile (\<lambda>p. p\<lparr>lastActivity := now, activity := Some data\<rparr>) sid
            (userProfiles s)\<rparr>,
      [])"

text \<open>
  \<open>disconnect\<close>: \<open>leaveCurrentRoom\<close> (with its \<open>user:left\<close> notifications), the profile
  is deleted, and when a room was left and is still in the table with members, each of
  them is sent \<open>user:disconnected\<close> as well.
\<close>

definition disconnect :: "state \<Rightarrow> js_string \<Rightarrow> int \<Rightarrow> string \<Rightarrow> state \<times> emission list" where
  "disconnect s sid now reason =
     (let (leftRoom, s1, out1) = leaveCurrentRoom s sid;
          s2 = s1\<lparr>userProfiles := map_delete (userProfiles s1) sid\<rparr>;
          out2 = (case leftRoom of
                    None \<Rightarrow> []
                  | Some left \<Rightarrow>
                      (case rooms s2 left of
                         None \<Rightarrow> []
                       | Some room \<Rightarrow>
                           if length room > 0
                           then map (\<lambda>remainingSocketId.
                                       (Io_to remainingSocketId,
                                        UserDisconnected sid left reason now)) room
                           else []))
      in (s2, out1 @ out2))"

section \<open>Periodic cleanup\<close>

definition maxInactiveTime :: int where
  "maxInactiveTime = 30 * 60 * 1000"

text \<open>
  \<open>userProfiles.forEach\<close> visits the entries in insertion order. The callback deletes
  only the entry it is visiting and \<open>leaveCurrentRoom\<close> does not touch \<open>userProfiles\<close>, so
  the loop runs over the entries as they were at its start.
\<close>

fun cleanup_users :: "int \<Rightarrow> (js_string \<times> profile) list \<Rightarrow> state \<Rightarrow> state \<times> emission list" where
  "cleanup_users now [] s = (s, [])"
| "cleanup_users now ((socketId, p) # rest) s =
     (if now - lastActivity p > maxInactiveTime
      then
        let s1 = s\<lparr>userProfiles := map_delete (userProfiles s) socketId\<rparr>;
            (left, s2, out1) = leaveCurrentRoom s1 socketId;
            (s3, out2) = cleanup_users now rest s2
        in (s3, out1 @ out2)
      else cleanup_users now rest s)"

text \<open>\<open>rooms.forEach\<close>: every empty room is deleted.\<close>

definition cleanup_rooms :: "state \<Rightarrow> state" where
  "cleanup_rooms s =
     s\<lparr>rooms := (\<lambda>rid. case rooms s rid of
                          None \<Rightarrow> None
                        | Some room \<Rightarrow> if length room = 0 then None else Some room)\<rparr>"

definition cleanupInterval :: "state \<Rightarrow> int \<Rightarrow> state \<times> emission list" where
  "cleanupInterval s now =
     (let (s1, out) = cleanup_users now (userProfiles s) s
      in (cleanup_rooms s1, out))"

section \<open>The server as a transition system\<close>

text \<open>
  One input is one callback run by the event loop: a connection, a client event on a
  socket (with the payload as it arrived), a disconnect, or a tick of the cleanup
  timer. A step is \<open>Inl\<close> when the callback throws outside every \<open>try\<close>. The \<open>error\<close>
  listener of a socket only logs, and the shutdown hook ends the process; they are not
  inputs here.
\<close>

datatype inbound =
    Connect js_string
  | RoomJoinMsg js_string js_value
  | OutgoingCallMsg js_string js_value
  | CallAcceptedMsg js_string js_value
  | IceCandidateMsg js_string js_value
  | CallEndedMsg js_string js_value
  | PingMsg js_string
  | UserActivityMsg js_string js_value
  | Disconnect js_string string
  | CleanupTick

definition with_fields ::
  "js_value \<Rightarrow> ((string \<Rightarrow> js_value) \<Rightarrow> state \<times> emission list) \<Rightarrow> fault + state \<times> emission list" where
  "with_fields payload handler =
     (case destructure payload of Inl e \<Rightarrow> Inl e | Inr field \<Rightarrow> Inr (handler field))"

fun step :: "unicode_tables \<Rightarrow> state \<Rightarrow> int \<Rightarrow> inbound \<Rightarrow> fault + state \<times> emission list" where
  "step ucd s now (Connect sid) = Inr (connection s sid now)"
| "step ucd s now (RoomJoinMsg sid payload) =
     with_fields payload (\<lambda>field. room_join ucd s sid now (field ''roomId''))"
| "step ucd s now (OutgoingCallMsg sid payload) =
     with_fields payload (\<lambda>field. outgoing_call s sid now (field ''to'') (field ''offer''))"
| "step ucd s now (CallAcceptedMsg sid payload) =
     with_fields payload (\<lambda>field. call_accepted s sid now (field ''to'') (field ''answer''))"
| "step ucd s now (IceCandidateMsg sid payload) =
     with_fields payload (\<lambda>field. ice_candidate s sid (field ''candidate'') (field ''to''))"
| "step ucd s now (CallEndedMsg sid payload) =
     with_fields payload (\<lambda>field. call_ended s sid now (field ''to''))"
| "step ucd s now (PingMsg sid) = Inr (ping s sid now)"
| "step ucd s now (UserActivityMsg sid data) = Inr (user_activity s sid now data)"
| "step ucd s now (Disconnect sid reason) = Inr (disconnect s sid now reason)"
| "step ucd s now CleanupTick = Inr (cleanupInterval s now)"

inductive reachable :: "unicode_tables \<Rightarrow> state \<Rightarrow> bool"
  for ucd :: unicode_tables where
  reachable_init: "reachable ucd init"
| reachable_step: "reachable ucd s \<Longrightarrow> step ucd s now i = Inr (s', out) \<Longrightarrow> reachable ucd s'"

text \<open>Running a list of timed inputs; the run stops where the process exits.\<close>

fun run :: "unicode_tables \<Rightarrow> state \<Rightarrow> (int \<times> inbound) list \<Rightarrow> state" where
  "run ucd s [] = s"
| "run ucd s ((now, i) # rest) =
     (case step ucd s now i of Inl _ \<Rightarrow> s | Inr (s', _) \<Rightarrow> run ucd s' rest)"

section \<open>Notions used by the properties\<close>

text \<open>
  The bookkeeping invariant: a room in the table is not empty, has no member twice and
  at most two members, every member is mapped to it by \<open>socketToRoom\<close>, and every
  mapped socket is a member of the room it is mapped to, whose id is not empty.
\<close>

definition wf :: "state \<Rightarrow> bool" where
  "wf s \<longleftrightarrow>
     (\<forall>r room. rooms s r = Some room \<longrightarrow>
        room \<noteq> [] \<and> distinct room \<and> length room \<le> 2 \<and>
        (\<forall>x \<in> set room. socketToRoom s x = Some r)) \<and>
     (\<forall>x r. socketToRoom s x = Some r \<longrightarrow>
        r \<noteq> [] \<and> (\<exists>room. rooms s r = Some room \<and> x \<in> set room))"

text \<open>The capacity test of \<open>room:join\<close> on the canonical key.\<close>

definition room_full :: "state \<Rightarrow> js_string \<Rightarrow> js_string \<Rightarrow> bool" where
  "room_full s sid clean =
     (case rooms s clean of
        None \<Rightarrow> False
      | Some existingRoom \<Rightarrow> length existingRoom \<ge> 2 \<and> sid \<notin> set existingRoom)"

text \<open>
  Two connections share a room when both are mapped to the same room; a destination
  that is not a string names no connection.
\<close>

definition sameRoom :: "state \<Rightarrow> js_string \<Rightarrow> js_string \<Rightarrow> bool" where
  "sameRoom s a b = (case socketToRoom s a of None \<Rightarrow> False | Some r \<Rightarrow> socketToRoom s b = Some r)"

definition colocated :: "state \<Rightarrow> js_string \<Rightarrow> js_value \<Rightarrow> bool" where
  "colocated s sid to = (case to of String dest \<Rightarrow> sameRoom s sid dest | _ \<Rightarrow> False)"

text \<open>The \<open>from\<close> field of a forwarded signalling event.\<close>

fun from_field :: "event \<Rightarrow> js_string option" where
  "from_field (IncomingCall f _ _) = Some f"
| "from_field (CallAccepted f _ _) = Some f"
| "from_field (IceCandidate _ f) = Some f"
| "from_field (CallEnded f _) = Some f"
| "from_field _ = None"

text \<open>The departure notifications (\<open>user:left\<close>, \<open>user:disconnected\<close>) addressed to a socket.\<close>

fun is_departure :: "event \<Rightarrow> bool" where
  "is_departure (UserLeft _ _ _) = True"
| "is_departure (UserDisconnected _ _ _ _) = True"
| "is_departure _ = False"

definition departures_to :: "js_string \<Rightarrow> emission list \<Rightarrow> emission list" where
  "departures_to c out = filter (\<lambda>(t, e). t = Io_to c \<and> is_departure e) out"






text \<open>The test of the cleanup: the last activity is more than \<open>maxInactiveTime\<close> ago.\<close>

definition stale :: "int \<Rightarrow> profile \<Rightarrow> bool" where
  "stale now p \<longleftrightarrow> now - lastActivity p > maxInactiveTime"

subsection \<open>A session\<close>

text \<open>
  Two clients join the room \<open>demo\<close> under different spellings; a third one then joins
  the room \<open>other\<close>. Every id of the session is ASCII, so the tables beyond the
  repertoire are never consulted; \<open>no_ucd\<close> stands for them.
\<close>

definition no_ucd :: unicode_tables where
  "no_ucd s = (0, [])"

definition c1 :: js_string where "c1 = utf16 ''c1''"

definition c2 :: js_string where "c2 = utf16 ''c2''"

definition c3 :: js_string where "c3 = utf16 ''c3''"

definition room_demo :: js_string where "room_demo = utf16 ''demo''"

definition room_other :: js_string where "room_other = utf16 ''other''"

definition join_payload :: "js_string \<Rightarrow> js_value" where
  "join_payload raw = Object [(''roomId'', String raw)]"

definition demo2 :: state where
  "demo2 = run no_ucd init
     [(0, Connect c1), (1000, Connect c2),
      (2000, RoomJoinMsg c1 (join_payload (utf16 ''Demo''))),
      (3000, RoomJoinMsg c2 (join_payload (utf16 ''demo '')))]"

definition demo3 :: state where
  "demo3 = run no_ucd demo2
     [(4000, Connect c3), (5000, RoomJoinMsg c3 (join_payload (utf16 ''Other'')))]"

text \<open>The four signalling messages a socket can send.\<close>

definition signalling_inputs :: "js_string \<Rightarrow> js_value \<Rightarrow> inbound list" where
  "signalling_inputs sid payload =
     [OutgoingCallMsg sid payload, CallAcceptedMsg sid payload,
      IceCandidateMsg sid payload, CallEndedMsg sid payload]"

text \<open>An offer whose sender claims to be somebody else.\<close>

definition forged_offer :: js_value where
  "forged_offer =
     Object [(''to'', String c2), (''offer'', String (utf16 ''X'')), (''from'', String (utf16 ''c9''))]"

section \<open>The bookkeeping invariant\<close>

lemma set_set_delete [simp]: "set (set_delete room x) = set room - {x}"
  by (auto simp: set_delete_def)

lemma distinct_set_delete [simp]: "distinct room \<Longrightarrow> distinct (set_delete room x)"
  by (simp add: set_delete_def)

lemma length_set_delete_le: "length (set_delete room x) \<le> length room"
  by (simp add: set_delete_def)

lemma length_set_delete_mem:
  "x \<in> set room \<Longrightarrow> length (set_delete room x) < length room"
  unfolding set_delete_def by (induction room) (auto simp: less_Suc_eq_le)

lemma set_delete_empty_iff: "set_delete room x = [] \<longleftrightarrow> set room \<subseteq> {x}"
  by (auto simp: set_delete_def filter_empty_conv)

lemma wf_init: "wf init"
  by (simp add: wf_def init_def)

lemma leave_None:
  "socketToRoom s x = None \<Longrightarrow> leaveCurrentRoom s x = (None, s, [])"
  by (simp add: leaveCurrentRoom_def)

lemma leave_member:
  assumes "socketToRoom s x = Some r" "r \<noteq> []" "rooms s r = Some room"
  shows "leaveCurrentRoom s x =
           (Some r,
            s\<lparr>rooms := (rooms s)(r := if set_delete room x = [] then None else Some (set_delete room x)),
              socketToRoom := (socketToRoom s)(x := None)\<rparr>,
            map (\<lambda>other. (Io_to other, UserLeft x r (length (set_delete room x)))) (set_delete room x))"
  using assms by (simp add: leaveCurrentRoom_def cleanupRoom_def Let_def)

lemma wf_roomD:
  "wf s \<Longrightarrow> rooms s r = Some room \<Longrightarrow> room \<noteq> [] \<and> distinct room \<and> length room \<le> 2"
  unfolding wf_def by blast

lemma wf_memberD:
  "wf s \<Longrightarrow> rooms s r = Some room \<Longrightarrow> x \<in> set room \<Longrightarrow> socketToRoom s x = Some r"
  unfolding wf_def by blast

lemma wf_mappedD:
  "wf s \<Longrightarrow> socketToRoom s x = Some r \<Longrightarrow>
     r \<noteq> [] \<and> (\<exists>room. rooms s r = Some room \<and> x \<in> set room)"
  unfolding wf_def by blast

lemma wfI:
  assumes "\<And>r room. rooms s r = Some room \<Longrightarrow> room \<noteq> [] \<and> distinct room \<and> length room \<le> 2"
    and "\<And>r room x. rooms s r = Some room \<Longrightarrow> x \<in> set room \<Longrightarrow> socketToRoom s x = Some r"
    and "\<And>x r. socketToRoom s x = Some r \<Longrightarrow>
           r \<noteq> [] \<and> (\<exists>room. rooms s r = Some room \<and> x \<in> set room)"
  shows "wf s"
  unfolding wf_def using assms by blast

lemma wf_leave:
  assumes "wf s" "leaveCurrentRoom s x = (l, s', out)"
  shows "wf s'"
proof (cases "socketToRoom s x")
  case None
  with assms show ?thesis by (simp add: leave_None)
next
  case (Some r)
  from wf_mappedD[OF assms(1) Some] obtain room
    where r: "r \<noteq> []" "rooms s r = Some room" "x \<in> set room"
    by blast
  from assms(2) have rooms': "rooms s' = (rooms s)(r := if set_delete room x = [] then None else Some (set_delete room x))"
    and map': "socketToRoom s' = (socketToRoom s)(x := None)"
    by (auto simp add: leave_member[OF Some r(1,2)])
  show ?thesis
  proof (rule wfI)
    fix q qroom assume "rooms s' q = Some qroom"
    then show "qroom \<noteq> [] \<and> distinct qroom \<and> length qroom \<le> 2"
      using wf_roomD[OF assms(1), of q] wf_roomD[OF assms(1) r(2)] length_set_delete_le[of room x]
      by (auto simp: rooms' split: if_splits)
  next
    fix q qroom y assume "rooms s' q = Some qroom" "y \<in> set qroom"
    then show "socketToRoom s' y = Some q"
      using wf_memberD[OF assms(1), of q _ y] wf_memberD[OF assms(1) r(2), of y] Some
      by (auto simp: rooms' map' split: if_splits)
  next
    fix y q assume "socketToRoom s' y = Some q"
    then show "q \<noteq> [] \<and> (\<exists>room. rooms s' q = Some room \<and> y \<in> set room)"
      using wf_mappedD[OF assms(1), of y q] r(2)
      by (auto simp: rooms' map' set_delete_empty_iff split: if_splits)
  qed
qed

lemma leave_unmapped:
  assumes "wf s" "leaveCurrentRoom s x = (l, s', out)"
  shows "socketToRoom s' x = None"
  using assms wf_mappedD[OF assms(1), of x]
  by (cases "socketToRoom s x") (auto simp: leave_None leave_member)


lemma leave_rooms:
  assumes "wf s" "leaveCurrentRoom s x = (l, s', out)" "rooms s' q = Some room'"
  shows "\<exists>room. rooms s q = Some room \<and> length room' \<le> length room \<and>
           (x \<in> set room \<longrightarrow> length room' < length room) \<and> x \<notin> set room'"
proof (cases "socketToRoom s x")
  case None
  with assms have "s' = s" by (simp add: leave_None)
  moreover have "x \<notin> set room'"
    using wf_memberD[OF assms(1), of q room' x] assms(3) None \<open>s' = s\<close> by auto
  ultimately show ?thesis using assms(3) by auto
next
  case (Some r)
  from wf_mappedD[OF assms(1) Some] obtain room
    where r: "r \<noteq> []" "rooms s r = Some room" "x \<in> set room"
    by blast
  from assms(2) have rooms': "rooms s' = (rooms s)(r := if set_delete room x = [] then None else Some (set_delete room x))"
    by (auto simp add: leave_member[OF Some r(1,2)])
  show ?thesis
  proof (cases "q = r")
    case True
    then show ?thesis
      using assms(3) r length_set_delete_mem[OF r(3)]
      by (auto simp: rooms' split: if_splits)
  next
    case False
    then have "rooms s q = Some room'" using assms(3) by (simp add: rooms')
    moreover have "x \<notin> set room'"
      using wf_memberD[OF assms(1) \<open>rooms s q = Some room'\<close>, of x] Some False by auto
    ultimately show ?thesis by auto
  qed
qed

lemma toLowerCase_empty_iff: "toLowerCase ucd s = [] \<longleftrightarrow> s = []"
  by (cases s) (auto simp: toLowerCase_def split: prod.splits)

lemma cleanRoomId_empty_iff: "cleanRoomId ucd raw = [] \<longleftrightarrow> trim raw = []"
  by (simp add: cleanRoomId_def toLowerCase_empty_iff)

lemma cleanRoomId_nonempty: "trim raw \<noteq> [] \<Longrightarrow> cleanRoomId ucd raw \<noteq> []"
  by (simp add: cleanRoomId_empty_iff)

lemma room_join_invalid:
  "\<not> (\<exists>raw. v = String raw \<and> trim raw \<noteq> []) \<Longrightarrow>
     room_join ucd s sid now v = (s, [(Socket_emit sid, ErrorEvent ''Invalid room ID'')])"
  by (cases v) (auto simp: room_join_def trim_def)

lemma room_join_full:
  "trim raw \<noteq> [] \<Longrightarrow> room_full s sid (cleanRoomId ucd raw) \<Longrightarrow>
     room_join ucd s sid now (String raw) = (s, [(Socket_emit sid, ErrorEvent ''Room is full'')])"
  by (auto simp: room_join_def room_full_def trim_def)

lemma room_join_ok:
  assumes "trim raw \<noteq> []" "\<not> room_full s sid (cleanRoomId ucd raw)"
    and "leaveCurrentRoom s sid = (l, s1, out1)"
    and "room_join ucd s sid now (String raw) = (s', out)"
  shows "rooms s' = (rooms s1)(cleanRoomId ucd raw \<mapsto>
            set_add (case rooms s1 (cleanRoomId ucd raw) of None \<Rightarrow> [] | Some r \<Rightarrow> r) sid)"
    and "socketToRoom s' = (socketToRoom s1)(sid \<mapsto> cleanRoomId ucd raw)"
proof -
  have "raw \<noteq> []" using assms(1) by (auto simp: trim_def)
  then show "rooms s' = (rooms s1)(cleanRoomId ucd raw \<mapsto>
            set_add (case rooms s1 (cleanRoomId ucd raw) of None \<Rightarrow> [] | Some r \<Rightarrow> r) sid)"
    and "socketToRoom s' = (socketToRoom s1)(sid \<mapsto> cleanRoomId ucd raw)"
    using assms by (auto simp: room_join_def room_full_def Let_def)
qed

lemma wf_room_join:
  assumes "wf s" "room_join ucd s sid now v = (s', out)"
  shows "wf s'"
proof (cases "\<exists>raw. v = String raw \<and> trim raw \<noteq> []")
  case False
  then show ?thesis using assms by (simp add: room_join_invalid)
next
  case True
  then obtain raw where v: "v = String raw" and raw: "trim raw \<noteq> []" by blast
  define clean where "clean = cleanRoomId ucd raw"
  have clean: "clean \<noteq> []" unfolding clean_def by (rule cleanRoomId_nonempty[OF raw])
  show ?thesis
  proof (cases "room_full s sid clean")
    case True
    then show ?thesis using assms raw v by (simp add: room_join_full clean_def)
  next
    case False
    obtain l s1 out1 where lv: "leaveCurrentRoom s sid = (l, s1, out1)"
      by (cases "leaveCurrentRoom s sid") auto
    have wf1: "wf s1" by (rule wf_leave[OF assms(1) lv])
    have un: "socketToRoom s1 sid = None" by (rule leave_unmapped[OF assms(1) lv])
    define room1 where "room1 = (case rooms s1 clean of None \<Rightarrow> [] | Some r \<Rightarrow> r)"
    have rooms': "rooms s' = (rooms s1)(clean \<mapsto> set_add room1 sid)"
      and map': "socketToRoom s' = (socketToRoom s1)(sid \<mapsto> clean)"
      using room_join_ok[OF raw _ lv, of ucd now s' out] False assms(2)
      unfolding clean_def room1_def v by auto
    have room1: "distinct room1 \<and> length room1 \<le> 1 \<and> sid \<notin> set room1 \<and>
                 (\<forall>y \<in> set room1. socketToRoom s1 y = Some clean)"
    proof (cases "rooms s1 clean")
      case None
      then show ?thesis by (simp add: room1_def)
    next
      case (Some r1)
      from leave_rooms[OF assms(1) lv Some] obtain room where
        room: "rooms s clean = Some room" "length r1 \<le> length room"
          "sid \<in> set room \<longrightarrow> length r1 < length room" "sid \<notin> set r1"
        by blast
      have "length r1 \<le> 1"
        using False room wf_roomD[OF assms(1) room(1)] by (auto simp: room_full_def)
      then show ?thesis
        using Some room(4) wf_roomD[OF wf1 Some] wf_memberD[OF wf1 Some]
        by (auto simp: room1_def)
    qed
    show ?thesis
    proof (rule wfI)
      fix q qroom assume "rooms s' q = Some qroom"
      then show "qroom \<noteq> [] \<and> distinct qroom \<and> length qroom \<le> 2"
        using wf_roomD[OF wf1, of q] room1
        by (auto simp: rooms' set_add_def split: if_splits)
    next
      fix q qroom y assume "rooms s' q = Some qroom" "y \<in> set qroom"
      then show "socketToRoom s' y = Some q"
        using wf_memberD[OF wf1, of q _ y] room1 un
        by (auto simp: rooms' map' set_add_def split: if_splits)
    next
      fix y q assume "socketToRoom s' y = Some q"
      then show "q \<noteq> [] \<and> (\<exists>room. rooms s' q = Some room \<and> y \<in> set room)"
        using wf_mappedD[OF wf1, of y q] clean
        by (auto simp: rooms' map' set_add_def room1_def split: if_splits)
    qed
  qed
qed


lemma wf_cong:
  "wf s \<Longrightarrow> rooms s' = rooms s \<Longrightarrow> socketToRoom s' = socketToRoom s \<Longrightarrow> wf s'"
  by (simp add: wf_def)

lemma wf_disconnect:
  assumes "wf s" "disconnect s sid now reason = (s', out)"
  shows "wf s'"
proof -
  obtain l s1 out1 where lv: "leaveCurrentRoom s sid = (l, s1, out1)"
    by (cases "leaveCurrentRoom s sid") auto
  have "rooms s' = rooms s1" "socketToRoom s' = socketToRoom s1"
    using assms(2) lv by (auto simp: disconnect_def Let_def)
  with wf_leave[OF assms(1) lv] show ?thesis by (rule wf_cong)
qed

lemma wf_cleanup_users:
  "wf s \<Longrightarrow> cleanup_users now ps s = (s', out) \<Longrightarrow> wf s'"
proof (induction ps arbitrary: s s' out)
  case Nil
  then show ?case by simp
next
  case (Cons e ps)
  obtain socketId p where e: "e = (socketId, p)" by (cases e)
  show ?case
  proof (cases "now - lastActivity p > maxInactiveTime")
    case False
    with Cons e show ?thesis by simp
  next
    case True
    define s1 where "s1 = s\<lparr>userProfiles := map_delete (userProfiles s) socketId\<rparr>"
    obtain l s2 out1 where lv: "leaveCurrentRoom s1 socketId = (l, s2, out1)"
      by (cases "leaveCurrentRoom s1 socketId") auto
    obtain s3 out2 where rec: "cleanup_users now ps s2 = (s3, out2)"
      by (cases "cleanup_users now ps s2") auto
    have "wf s1" using Cons.prems(1) by (rule wf_cong) (simp_all add: s1_def)
    then have "wf s2" using lv by (rule wf_leave)
    then have "wf s3" using rec by (rule Cons.IH)
    moreover have "s' = s3"
      using Cons.prems(2) True e lv rec by (simp add: s1_def)
    ultimately show ?thesis by simp
  qed
qed

lemma cleanup_rooms_wf_id:
  assumes "wf s"
  shows "cleanup_rooms s = s"
proof -
  have "(case rooms s rid of None \<Rightarrow> None
         | Some room \<Rightarrow> if length room = 0 then None else Some room) = rooms s rid" for rid
    using wf_roomD[OF assms, of rid] by (cases "rooms s rid") auto
  then show ?thesis by (simp add: cleanup_rooms_def)
qed

lemma wf_cleanup_rooms: "wf s \<Longrightarrow> wf (cleanup_rooms s)"
  by (simp add: cleanup_rooms_wf_id)

lemma wf_cleanupInterval:
  assumes "wf s" "cleanupInterval s now = (s', out)"
  shows "wf s'"
proof -
  obtain s1 out1 where cu: "cleanup_users now (userProfiles s) s = (s1, out1)"
    by (cases "cleanup_users now (userProfiles s) s") auto
  then have "s' = cleanup_rooms s1" using assms(2) by (simp add: cleanupInterval_def)
  with wf_cleanup_users[OF assms(1) cu] show ?thesis by (simp add: wf_cleanup_rooms)
qed

lemma with_fields_Inr:
  "with_fields payload h = Inr r \<Longrightarrow> \<exists>field. destructure payload = Inr field \<and> h field = r"
  by (auto simp: with_fields_def split: sum.splits)

lemma wf_step:
  assumes "wf s" "step ucd s now i = Inr (s', out)"
  shows "wf s'"
proof (cases i)
  case (Connect sid)
  with assms show ?thesis by (auto simp: connection_def elim: wf_cong)
next
  case (RoomJoinMsg sid payload)
  with assms show ?thesis by (auto dest!: with_fields_Inr intro: wf_room_join)
next
  case (OutgoingCallMsg sid payload)
  with assms show ?thesis
    by (auto dest!: with_fields_Inr simp: outgoing_call_def Let_def split: if_splits)
next
  case (CallAcceptedMsg sid payload)
  with assms show ?thesis
    by (auto dest!: with_fields_Inr simp: call_accepted_def split: if_splits)
next
  case (IceCandidateMsg sid payload)
  with assms show ?thesis
    by (auto dest!: with_fields_Inr simp: ice_candidate_def split: if_splits)
next
  case (CallEndedMsg sid payload)
  with assms show ?thesis
    by (auto dest!: with_fields_Inr simp: call_ended_def split: if_splits)
next
  case (PingMsg sid)
  with assms show ?thesis by (auto simp: ping_def elim: wf_cong)
next
  case (UserActivityMsg sid data)
  with assms show ?thesis by (auto simp: user_activity_def elim: wf_cong)
next
  case (Disconnect sid reason)
  with assms show ?thesis by (auto intro: wf_disconnect)
next
  case CleanupTick
  with assms show ?thesis by (auto intro: wf_cleanupInterval)
qed

lemma reachable_wf: "reachable ucd s \<Longrightarrow> wf s"
  by (induction rule: reachable.induct) (auto intro: wf_init wf_step)

lemma reachable_run: "reachable ucd s \<Longrightarrow> reachable ucd (run ucd s is)"
proof (induction "is" arbitrary: s)
  case Nil
  then show ?case by simp
next
  case (Cons a "is")
  obtain now i where a: "a = (now, i)" by (cases a)
  show ?case
  proof (cases "step ucd s now i")
    case (Inl e)
    with Cons a show ?thesis by simp
  next
    case (Inr r)
    obtain s' out where r: "r = (s', out)" by (cases r)
    have "reachable ucd s'" using Cons.prems Inr r by (auto intro: reachable_step)
    then show ?thesis using Cons.IH Inr r a by simp
  qed
qed

section \<open>Evaluating the session\<close>

lemmas handler_defs =
  with_fields_def property_def connection_def room_join_def outgoing_call_def
  call_accepted_def ice_candidate_def call_ended_def ping_def user_activity_def
  disconnect_def cleanupInterval_def cleanup_rooms_def leaveCurrentRoom_def
  cleanupRoom_def getRoomInfo_def update_profile_def map_delete_def set_add_def
  set_delete_def cleanRoomId_def trim_def toLowerCase_def inRepertoire_def lowerUnit_def
  isWhiteSpace_def utf16_def room_of_def is_string_def maxInactiveTime_def Let_def

lemmas session_ids = c1_def c2_def c3_def room_demo_def room_other_def utf16_def

lemmas demo_defs = demo2_def demo3_def join_payload_def init_def session_ids

lemma reachable_demo2: "reachable no_ucd demo2"
  unfolding demo2_def by (rule reachable_run[OF reachable_init])

lemma reachable_demo3: "reachable no_ucd demo3"
  unfolding demo3_def by (rule reachable_run[OF reachable_demo2])

lemma demo2_state:
  "demo2 = \<lparr>rooms = [room_demo \<mapsto> [c1, c2]],
            socketToRoom = [c1 \<mapsto> room_demo, c2 \<mapsto> room_demo],
            userProfiles =
              [(c1, \<lparr>connectedAt = 0, lastActivity = 2000,
                        currentRoom = Some room_demo, activity = None\<rparr>),
               (c2, \<lparr>connectedAt = 1000, lastActivity = 3000,
                        currentRoom = Some room_demo, activity = None\<rparr>)]\<rparr>"
  by (simp add: demo_defs handler_defs)

lemma demo3_state:
  "demo3 = \<lparr>rooms = [room_demo \<mapsto> [c1, c2], room_other \<mapsto> [c3]],
            socketToRoom = [c1 \<mapsto> room_demo, c2 \<mapsto> room_demo, c3 \<mapsto> room_other],
            userProfiles =
              [(c1, \<lparr>connectedAt = 0, lastActivity = 2000,
                        currentRoom = Some room_demo, activity = None\<rparr>),
               (c2, \<lparr>connectedAt = 1000, lastActivity = 3000,
                        currentRoom = Some room_demo, activity = None\<rparr>),
               (c3, \<lparr>connectedAt = 4000, lastActivity = 5000,
                        currentRoom = Some room_other, activity = None\<rparr>)]\<rparr>"
  unfolding demo3_def demo2_state
  by (simp add: join_payload_def handler_defs session_ids)

section \<open>Room capacity\<close>

text \<open>
  Claim C1. In every reachable state of the server no room has more than two members
  (and none twice, so that the length of the list is the size of the \<open>Set\<close>). A
  \<open>room:join\<close> by a socket that is not a member, into a room that has two members, is
  answered with the error \<open>Room is full\<close> and leaves the whole state as it was, so the
  membership of every room is unchanged.
\<close>

theorem room_capacity:
  assumes "reachable ucd s"
  shows "(\<forall>r room. rooms s r = Some room \<longrightarrow> distinct room \<and> length room \<le> 2) \<and>
         (\<forall>sid now raw room.
            rooms s (cleanRoomId ucd raw) = Some room \<and> length room = 2 \<and> sid \<notin> set room \<longrightarrow>
            room_join ucd s sid now (String raw) =
              (s, [(Socket_emit sid, ErrorEvent ''Room is full'')]))"
proof -
  have wf: "wf s" using assms by (rule reachable_wf)
  then have "\<forall>r room. rooms s r = Some room \<longrightarrow> distinct room \<and> length room \<le> 2"
    using wf_roomD by blast
  moreover have "room_join ucd s sid now (String raw) =
              (s, [(Socket_emit sid, ErrorEvent ''Room is full'')])"
    if room: "rooms s (cleanRoomId ucd raw) = Some room" "length room = 2" "sid \<notin> set room"
    for sid now raw room
  proof -
    obtain x where "x \<in> set room" using room(2) by (cases room) auto
    then have "socketToRoom s x = Some (cleanRoomId ucd raw)"
      by (rule wf_memberD[OF wf room(1)])
    then have "cleanRoomId ucd raw \<noteq> []" using wf_mappedD[OF wf] by blast
    then have "trim raw \<noteq> []" by (simp add: cleanRoomId_empty_iff)
    then show ?thesis using room by (intro room_join_full) (simp_all add: room_full_def)
  qed
  ultimately show ?thesis by blast
qed

theorem room_capacity_witness:
  "reachable no_ucd demo2 \<and> rooms demo2 room_demo = Some [c1, c2] \<and>
   room_join no_ucd demo2 c3 4000 (String (utf16 '' DEMO'')) =
     (demo2, [(Socket_emit c3, ErrorEvent ''Room is full'')])"
proof -
  have t: "cleanRoomId no_ucd (utf16 '' DEMO'') = room_demo"
    by (simp add: handler_defs session_ids)
  have r: "rooms demo2 room_demo = Some [c1, c2]"
    by (simp add: demo2_state session_ids)
  show ?thesis
    using room_capacity[OF reachable_demo2] reachable_demo2 t r by (simp add: session_ids)
qed

section \<open>Signalling relay\<close>

lemma sameRoom_members:
  assumes "wf s"
  shows "sameRoom s a b \<longleftrightarrow> (\<exists>r room. rooms s r = Some room \<and> a \<in> set room \<and> b \<in> set room)"
proof
  assume "sameRoom s a b"
  then obtain r where r: "socketToRoom s a = Some r" "socketToRoom s b = Some r"
    by (auto simp: sameRoom_def split: option.splits)
  from wf_mappedD[OF assms r(1)] wf_mappedD[OF assms r(2)]
  show "\<exists>r room. rooms s r = Some room \<and> a \<in> set room \<and> b \<in> set room" by fastforce
next
  assume "\<exists>r room. rooms s r = Some room \<and> a \<in> set room \<and> b \<in> set room"
  then obtain r room where "rooms s r = Some room" "a \<in> set room" "b \<in> set room" by blast
  then have "socketToRoom s a = Some r" "socketToRoom s b = Some r"
    using wf_memberD[OF assms] by blast+
  then show "sameRoom s a b" by (simp add: sameRoom_def)
qed

text \<open>
  Claim C2. An \<open>outgoing:call\<close> whose destination and offer are present (truthy), in a
  reachable state: when the sender and the destination are not mapped to the same room
  (by \<open>sameRoom_members\<close>: are not members of one room), the only emission is the error
  \<open>Users are not in the same room\<close> to the sender, so nothing goes to the destination;
  when they are, the only emission is \<open>incoming:call\<close> with the offer, addressed to the
  destination. The state is unchanged in both cases.
\<close>

theorem outgoing_call_colocation:
  assumes "reachable ucd s" "truthy to" "truthy offer"
  shows "outgoing_call s sid now to offer =
           (if colocated s sid to
            then (s, [(Socket_to sid to, IncomingCall sid offer now)])
            else (s, [(Socket_emit sid, ErrorEvent ''Users are not in the same room'')]))"
proof -
  have wf: "wf s" using assms(1) by (rule reachable_wf)
  have ne: "socketToRoom s sid \<noteq> Some []"
    using wf_mappedD[OF wf, of sid "[]"] by auto
  show ?thesis
  proof (cases to)
    case (String dest)
    then show ?thesis
      using assms(2,3) ne
      by (cases "socketToRoom s sid")
         (auto simp: outgoing_call_def colocated_def sameRoom_def room_of_def is_string_def Let_def)
  qed (use assms(2,3) in \<open>auto simp: outgoing_call_def colocated_def room_of_def Let_def\<close>)
qed

theorem outgoing_call_colocation_witness:
  "outgoing_call demo3 c1 6000 (String c2) (String (utf16 ''X'')) =
     (demo3, [(Socket_to c1 (String c2), IncomingCall c1 (String (utf16 ''X'')) 6000)]) \<and>
   outgoing_call demo3 c1 6000 (String c3) (String (utf16 ''X'')) =
     (demo3, [(Socket_emit c1, ErrorEvent ''Users are not in the same room'')])"
proof -
  have "colocated demo3 c1 (String c2)" "\<not> colocated demo3 c1 (String c3)"
    by (simp_all add: colocated_def sameRoom_def demo3_state session_ids)
  then show ?thesis
    using outgoing_call_colocation[OF reachable_demo3, of "String c2" "String (utf16 ''X'')" "c1" 6000]
      outgoing_call_colocation[OF reachable_demo3, of "String c3" "String (utf16 ''X'')" "c1" 6000]
    by (simp add: session_ids)
qed

text \<open>
  Claim C3 says that \<open>call:accepted\<close> is checked for colocation like the offer. The
  handler has no such check: in the session, \<open>c3\<close> (in room \<open>other\<close>) sends an answer to
  \<open>c1\<close> (in room \<open>demo\<close>), and the answer is sent on with no error.
\<close>

theorem call_accepted_unchecked_counterexample:
  "reachable no_ucd demo3 \<and> \<not> sameRoom demo3 c3 c1 \<and>
   call_accepted demo3 c3 6000 (String c1) (String (utf16 ''Y'')) =
     (demo3, [(Socket_to c3 (String c1), CallAccepted c3 (String (utf16 ''Y'')) 6000)])"
  using reachable_demo3
  by (simp add: sameRoom_def call_accepted_def is_string_def demo3_state session_ids)

text \<open>
  Claim C3 as amended. A \<open>call:accepted\<close> with a destination that is a non-empty string
  and an answer that is present is sent on to the destination, tagged with the id of the
  sender, in every state: whether the two share a room plays no part, and no error is
  emitted.
\<close>

theorem call_accepted_forwards:
  assumes "truthy answer" "dest \<noteq> []"
  shows "call_accepted s sid now (String dest) answer =
           (s, [(Socket_to sid (String dest), CallAccepted sid answer now)])"
  using assms by (simp add: call_accepted_def is_string_def)

theorem call_accepted_forwards_witness:
  "call_accepted demo3 c3 6000 (String c1) (String (utf16 ''Y'')) =
     (demo3, [(Socket_to c3 (String c1), CallAccepted c3 (String (utf16 ''Y'')) 6000)])"
  using call_accepted_forwards[of "String (utf16 ''Y'')" "c1" demo3 "c3" 6000] by (simp add: session_ids)

lemma outgoing_call_from:
  "outgoing_call s sid now to offer = (s', out) \<Longrightarrow> (t, e) \<in> set out \<Longrightarrow> from_field e = Some f \<Longrightarrow> f = sid"
  by (auto simp: outgoing_call_def Let_def split: if_splits)

lemma call_accepted_from:
  "call_accepted s sid now to answer = (s', out) \<Longrightarrow> (t, e) \<in> set out \<Longrightarrow> from_field e = Some f \<Longrightarrow> f = sid"
  by (auto simp: call_accepted_def split: if_splits)

lemma ice_candidate_from:
  "ice_candidate s sid candidate to = (s', out) \<Longrightarrow> (t, e) \<in> set out \<Longrightarrow> from_field e = Some f \<Longrightarrow> f = sid"
  by (auto simp: ice_candidate_def split: if_splits)

lemma call_ended_from:
  "call_ended s sid now to = (s', out) \<Longrightarrow> (t, e) \<in> set out \<Longrightarrow> from_field e = Some f \<Longrightarrow> f = sid"
  by (auto simp: call_ended_def split: if_splits)

text \<open>
  Claim C7. Whatever payload a socket sends with \<open>outgoing:call\<close>, \<open>call:accepted\<close>,
  \<open>ice:candidate\<close> or \<open>call:ended\<close> (a \<open>from\<close> field of its own included), every
  signalling event the server emits in answer carries the id of that socket in its
  \<open>from\<close> field.
\<close>

theorem forwarded_from_is_sender:
  assumes "i \<in> set (signalling_inputs sid payload)"
    and "step ucd s now i = Inr (s', out)"
    and "(t, e) \<in> set out"
    and "from_field e = Some f"
  shows "f = sid"
proof -
  from assms(1) consider "i = OutgoingCallMsg sid payload" | "i = CallAcceptedMsg sid payload"
    | "i = IceCandidateMsg sid payload" | "i = CallEndedMsg sid payload"
    by (auto simp: signalling_inputs_def)
  then show ?thesis
  proof cases
    case 1
    with assms(2) obtain field where "outgoing_call s sid now (field ''to'') (field ''offer'') = (s', out)"
      by (auto dest!: with_fields_Inr)
    then show ?thesis using assms(3,4) by (rule outgoing_call_from)
  next
    case 2
    with assms(2) obtain field where "call_accepted s sid now (field ''to'') (field ''answer'') = (s', out)"
      by (auto dest!: with_fields_Inr)
    then show ?thesis using assms(3,4) by (rule call_accepted_from)
  next
    case 3
    with assms(2) obtain field where "ice_candidate s sid (field ''candidate'') (field ''to'') = (s', out)"
      by (auto dest!: with_fields_Inr)
    then show ?thesis using assms(3,4) by (rule ice_candidate_from)
  next
    case 4
    with assms(2) obtain field where "call_ended s sid now (field ''to'') = (s', out)"
      by (auto dest!: with_fields_Inr)
    then show ?thesis using assms(3,4) by (rule call_ended_from)
  qed
qed

theorem forwarded_from_is_sender_witness:
  "step no_ucd demo2 6000 (OutgoingCallMsg c1 forged_offer) =
     Inr (demo2, [(Socket_to c1 (String c2), IncomingCall c1 (String (utf16 ''X'')) 6000)]) \<and>
   from_field (IncomingCall c1 (String (utf16 ''X'')) 6000) = Some c1"
proof -
  have st: "step no_ucd demo2 6000 (OutgoingCallMsg c1 forged_offer) =
     Inr (demo2, [(Socket_to c1 (String c2), IncomingCall c1 (String (utf16 ''X'')) 6000)])"
    by (simp add: forged_offer_def with_fields_def property_def outgoing_call_def room_of_def
        is_string_def Let_def demo2_state session_ids)
  have "OutgoingCallMsg c1 forged_offer \<in> set (signalling_inputs c1 forged_offer)"
    by (simp add: signalling_inputs_def)
  from forwarded_from_is_sender[OF this st, of "Socket_to c1 (String c2)"
      "IncomingCall c1 (String (utf16 ''X'')) 6000" "c1"] st
  show ?thesis by (simp add: session_ids)
qed

text \<open>
  An \<open>ice:candidate\<close> message that arrives as an object whose candidate is falsy (\<open>null\<close>
  and an absent field are) or whose destination is falsy is dropped: nothing is emitted
  and the state is as it was.
\<close>

lemma ice_candidate_fields_silent:
  assumes "destructure payload = Inr field"
    and "\<not> truthy (field ''candidate'') \<or> \<not> truthy (field ''to'')"
  shows "step ucd s now (IceCandidateMsg sid payload) = Inr (s, [])"
  using assms by (auto simp: with_fields_def ice_candidate_def)

text \<open>
  Claim C8 says that every \<open>ice:candidate\<close> message whose candidate is null or absent, or
  whose destination is absent, is a silent no-op that does not crash the process. The
  handler is written to that end (a \<open>try\<close> around its body, a \<open>catch\<close> that only logs),
  but it destructures its argument in the parameter list, before the \<open>try\<close> is entered.
  A message sent with no payload, or with \<open>null\<close>, has neither a candidate nor a
  destination; for it the step is the uncaught TypeError, on which the process exits.
\<close>

theorem ice_candidate_without_payload_exits:
  "step ucd s now (IceCandidateMsg sid Undefined) = Inl UncaughtTypeError \<and>
   step ucd s now (IceCandidateMsg sid Null) = Inl UncaughtTypeError"
  by (simp add: with_fields_def)

section \<open>Joining a full room\<close>

lemma leave_out:
  "leaveCurrentRoom s x = (l, s', out) \<Longrightarrow> (t, e) \<in> set out \<Longrightarrow>
     \<exists>other r n. t = Io_to other \<and> e = UserLeft x r n"
  by (auto simp: leaveCurrentRoom_def Let_def split: option.splits if_splits)

lemma room_join_ok_out:
  assumes "trim raw \<noteq> []" "\<not> room_full s sid (cleanRoomId ucd raw)"
    and "room_join ucd s sid now (String raw) = (s', out)"
    and "(t, e) \<in> set out"
  shows "\<nexists>m. e = ErrorEvent m"
proof -
  obtain l s1 out1 where lv: "leaveCurrentRoom s sid = (l, s1, out1)"
    by (cases "leaveCurrentRoom s sid") auto
  have "raw \<noteq> []" using assms(1) by (auto simp: trim_def)
  then show ?thesis
    using assms lv leave_out[OF lv, of t e]
    by (auto simp: room_join_def room_full_def Let_def split: list.splits)
qed

text \<open>
  Claim C4 says that the room a socket is in is left before the capacity of the target
  room is checked, so that a rejected join has already removed the socket from its room.
  The handler checks the capacity first and returns: in the session \<open>c3\<close>, a member of
  \<open>other\<close>, asks for the full room \<open>demo\<close>, is refused, and is still the member of \<open>other\<close>.
\<close>

theorem leave_before_capacity_check_counterexample:
  "reachable no_ucd demo3 \<and> socketToRoom demo3 c3 = Some room_other \<and>
   rooms demo3 room_demo = Some [c1, c2] \<and>
   snd (room_join no_ucd demo3 c3 6000 (String room_demo)) =
     [(Socket_emit c3, ErrorEvent ''Room is full'')] \<and>
   socketToRoom (fst (room_join no_ucd demo3 c3 6000 (String room_demo))) c3 = Some room_other \<and>
   rooms (fst (room_join no_ucd demo3 c3 6000 (String room_demo))) room_other = Some [c3]"
  using reachable_demo3 by (simp add: demo3_state session_ids handler_defs)

text \<open>
  Claim C4 as amended. The capacity check comes before the current room is left: a
  \<open>room:join\<close> that is answered with \<open>Room is full\<close> changes nothing, so the socket is
  still mapped to the room it was in, and the error is the only emission.
\<close>

theorem room_full_rejection_keeps_state:
  assumes "room_join ucd s sid now v = (s', out)"
    and "(Socket_emit sid, ErrorEvent ''Room is full'') \<in> set out"
  shows "s' = s \<and> socketToRoom s' sid = socketToRoom s sid \<and>
         out = [(Socket_emit sid, ErrorEvent ''Room is full'')]"
proof (cases "\<exists>raw. v = String raw \<and> trim raw \<noteq> []")
  case False
  then show ?thesis using assms by (auto simp: room_join_invalid)
next
  case True
  then obtain raw where v: "v = String raw" and raw: "trim raw \<noteq> []" by blast
  show ?thesis
  proof (cases "room_full s sid (cleanRoomId ucd raw)")
    case True
    then show ?thesis using assms raw v by (auto simp: room_join_full)
  next
    case False
    from room_join_ok_out[OF raw False assms(1)[unfolded v] assms(2)]
    show ?thesis by simp
  qed
qed

theorem room_full_rejection_keeps_state_witness:
  "room_join no_ucd demo3 c3 6000 (String room_demo) =
     (demo3, [(Socket_emit c3, ErrorEvent ''Room is full'')])"
proof -
  obtain s' out where r: "room_join no_ucd demo3 c3 6000 (String room_demo) = (s', out)"
    by (cases "room_join no_ucd demo3 c3 6000 (String room_demo)") auto
  then have "(Socket_emit c3, ErrorEvent ''Room is full'') \<in> set out"
    by (auto simp: demo3_state session_ids handler_defs)
  from room_full_rejection_keeps_state[OF r this] r show ?thesis by (simp add: session_ids)
qed

section \<open>Leaving and disconnecting\<close>

lemma pair_room:
  assumes "distinct room" "length room \<le> 2" "a \<in> set room" "b \<in> set room" "a \<noteq> b"
  shows "room = [a, b] \<or> room = [b, a]"
proof -
  obtain x y where "room = [x, y]"
    using assms by (cases room; cases "tl room"; cases "tl (tl room)") auto
  with assms show ?thesis by auto
qed

lemma leave_pair:
  assumes "wf s" "rooms s r = Some room" "a \<in> set room" "b \<in> set room" "a \<noteq> b"
  shows "leaveCurrentRoom s a =
           (Some r,
            s\<lparr>rooms := (rooms s)(r \<mapsto> [b]), socketToRoom := (socketToRoom s)(a := None)\<rparr>,
            [(Io_to b, UserLeft a r 1)])"
proof -
  have m: "socketToRoom s a = Some r" by (rule wf_memberD[OF assms(1,2,3)])
  have r: "r \<noteq> []" using wf_mappedD[OF assms(1) m] by simp
  have "room = [a, b] \<or> room = [b, a]"
    using wf_roomD[OF assms(1,2)] assms(3-5) by (intro pair_room) auto
  then have "set_delete room a = [b]" using assms(5) by (auto simp: set_delete_def)
  then show ?thesis by (simp add: leave_member[OF m r assms(2)])
qed

lemma leave_single:
  assumes "wf s" "rooms s r = Some [a]"
  shows "leaveCurrentRoom s a =
           (Some r,
            s\<lparr>rooms := (rooms s)(r := None), socketToRoom := (socketToRoom s)(a := None)\<rparr>,
            [])"
proof -
  have m: "socketToRoom s a = Some r" by (rule wf_memberD[OF assms(1,2)]) simp
  have r: "r \<noteq> []" using wf_mappedD[OF assms(1) m] by simp
  show ?thesis by (simp add: leave_member[OF m r assms(2)] set_delete_def)
qed

text \<open>
  Claim C5 says that the member that remains in a room of two receives exactly one
  departure notification, a \<open>user:left\<close> or a \<open>user:disconnected\<close> and not both. On a
  disconnect the handler sends both: \<open>leaveCurrentRoom\<close> emits \<open>user:left\<close>, and the
  handler then emits \<open>user:disconnected\<close> to the members of the room that was left.
\<close>

theorem single_departure_notification_counterexample:
  "reachable no_ucd demo3 \<and> rooms demo3 room_demo = Some [c1, c2] \<and>
   departures_to c1 (snd (disconnect demo3 c2 6000 ''transport close'')) =
     [(Io_to c1, UserLeft c2 room_demo 1),
      (Io_to c1, UserDisconnected c2 room_demo ''transport close'' 6000)]"
  using reachable_demo3 by (simp add: departures_to_def demo3_state session_ids handler_defs)

text \<open>
  Claim C5 as amended. In a reachable state, when a member \<open>a\<close> of a room with one other
  member \<open>b\<close> leaves it (\<open>leaveCurrentRoom\<close>), \<open>b\<close> is sent exactly one \<open>user:left\<close>; when
  \<open>a\<close> disconnects, \<open>b\<close> is sent one \<open>user:left\<close> and then one \<open>user:disconnected\<close>; in
  both cases the room stays in the table with \<open>b\<close> as its only member. When the only
  member of a room leaves or disconnects, nothing is emitted and the room is no longer
  in the table.
\<close>

theorem departure_notifications:
  assumes "reachable ucd s" "rooms s r = Some room" "a \<in> set room"
  shows "(b \<in> set room \<and> b \<noteq> a \<longrightarrow>
            snd (snd (leaveCurrentRoom s a)) = [(Io_to b, UserLeft a r 1)] \<and>
            rooms (fst (snd (leaveCurrentRoom s a))) r = Some [b] \<and>
            snd (disconnect s a now reason) =
              [(Io_to b, UserLeft a r 1), (Io_to b, UserDisconnected a r reason now)] \<and>
            rooms (fst (disconnect s a now reason)) r = Some [b]) \<and>
         (room = [a] \<longrightarrow>
            snd (snd (leaveCurrentRoom s a)) = [] \<and>
            rooms (fst (snd (leaveCurrentRoom s a))) r = None \<and>
            snd (disconnect s a now reason) = [] \<and>
            rooms (fst (disconnect s a now reason)) r = None)"
proof -
  have wf: "wf s" using assms(1) by (rule reachable_wf)
  have "snd (snd (leaveCurrentRoom s a)) = [(Io_to b, UserLeft a r 1)] \<and>
        rooms (fst (snd (leaveCurrentRoom s a))) r = Some [b] \<and>
        snd (disconnect s a now reason) =
          [(Io_to b, UserLeft a r 1), (Io_to b, UserDisconnected a r reason now)] \<and>
        rooms (fst (disconnect s a now reason)) r = Some [b]"
    if "b \<in> set room" "b \<noteq> a"
    using leave_pair[OF wf assms(2,3) that(1)] that(2)
    by (simp add: disconnect_def)
  moreover have "snd (snd (leaveCurrentRoom s a)) = [] \<and>
        rooms (fst (snd (leaveCurrentRoom s a))) r = None \<and>
        snd (disconnect s a now reason) = [] \<and>
        rooms (fst (disconnect s a now reason)) r = None"
    if "room = [a]"
    using leave_single[OF wf assms(2)[unfolded that]]
    by (simp add: disconnect_def)
  ultimately show ?thesis by blast
qed

theorem departure_notifications_witness:
  "snd (snd (leaveCurrentRoom demo3 c2)) = [(Io_to c1, UserLeft c2 room_demo 1)] \<and>
   rooms (fst (snd (leaveCurrentRoom demo3 c2))) room_demo = Some [c1] \<and>
   rooms (fst (disconnect demo3 c3 6000 ''transport close'')) room_other = None"
proof -
  have a: "rooms demo3 room_demo = Some [c1, c2]" "c2 \<in> set [c1, c2]"
    and b: "rooms demo3 room_other = Some [c3]" "c3 \<in> set [c3]"
    by (simp_all add: demo3_state session_ids)
  show ?thesis
    using departure_notifications[OF reachable_demo3 a, of "c1" 6000 "''transport close''"]
      departure_notifications[OF reachable_demo3 b, of "c1" 6000 "''transport close''"]
    by (simp add: session_ids)
qed

text \<open>
  Claim C10. In a reachable state, a member \<open>sid\<close> of the room \<open>r\<close> that has one other
  member \<open>peer\<close> sends \<open>room:join\<close> for a spelling of \<open>r\<close> again. The join succeeds (it
  ends with \<open>room:joined\<close>, and the room holds both again), and the peer is first sent
  \<open>user:left\<close> for \<open>sid\<close> with the count 1 of the room without \<open>sid\<close>, and then
  \<open>user:joined\<close> for \<open>sid\<close>.
\<close>

theorem rejoin_notifies_peer:
  assumes "reachable ucd s" "rooms s r = Some room" "sid \<in> set room" "peer \<in> set room"
    and "peer \<noteq> sid" "cleanRoomId ucd raw = r"
  shows "rooms (fst (room_join ucd s sid now (String raw))) r = Some [peer, sid] \<and>
         snd (room_join ucd s sid now (String raw)) =
           [(Io_to peer, UserLeft sid r 1),
            (Socket_emit sid, UserJoined peer r (getRoomInfo (fst (room_join ucd s sid now (String raw))) r)),
            (Io_to peer, UserJoined sid r (getRoomInfo (fst (room_join ucd s sid now (String raw))) r)),
            (Socket_emit sid, RoomJoined (getRoomInfo (fst (room_join ucd s sid now (String raw))) r))]"
proof -
  have wf: "wf s" using assms(1) by (rule reachable_wf)
  have m: "socketToRoom s sid = Some r" by (rule wf_memberD[OF wf assms(2,3)])
  have r: "r \<noteq> []" using wf_mappedD[OF wf m] by simp
  have raw: "raw \<noteq> []" "trim raw \<noteq> []"
    using r assms(6) cleanRoomId_empty_iff[of ucd raw] by (auto simp: trim_def)
  have nf: "\<not> (length room \<ge> 2 \<and> sid \<notin> set room)" using assms(3) by simp
  show ?thesis
    using raw nf assms(2,5,6) leave_pair[OF wf assms(2,3,4)] assms(5)
    by (simp add: room_join_def Let_def set_add_def getRoomInfo_def)
qed

theorem rejoin_notifies_peer_witness:
  "rooms (fst (room_join no_ucd demo2 c1 6000 (String (utf16 ''DEMO'')))) room_demo = Some [c2, c1] \<and>
   map fst (snd (room_join no_ucd demo2 c1 6000 (String (utf16 ''DEMO'')))) =
     [Io_to c2, Socket_emit c1, Io_to c2, Socket_emit c1] \<and>
   hd (snd (room_join no_ucd demo2 c1 6000 (String (utf16 ''DEMO'')))) =
     (Io_to c2, UserLeft c1 room_demo 1)"
proof -
  have a: "rooms demo2 room_demo = Some [c1, c2]" "c1 \<in> set [c1, c2]"
     "c2 \<in> set [c1, c2]" "c2 \<noteq> c1" "cleanRoomId no_ucd (utf16 ''DEMO'') = room_demo"
    by (simp_all add: demo2_state session_ids handler_defs)
  show ?thesis
    using rejoin_notifies_peer[OF reachable_demo2 a, of 6000] by (simp add: session_ids)
qed

section \<open>The canonical room key\<close>





















section \<open>The idle reaper\<close>

lemma leave_userProfiles:
  "leaveCurrentRoom s x = (l, s', out) \<Longrightarrow> userProfiles s' = userProfiles s"
  by (auto simp: leaveCurrentRoom_def cleanupRoom_def Let_def split: option.splits if_splits)

lemma leave_keeps_unmapped:
  "leaveCurrentRoom s x = (l, s', out) \<Longrightarrow> socketToRoom s y = None \<Longrightarrow> socketToRoom s' y = None"
  by (auto simp: leaveCurrentRoom_def cleanupRoom_def Let_def split: option.splits if_splits)

lemma leave_other_room:
  assumes "wf s" "leaveCurrentRoom s k = (l, s', out)" "rooms s r = Some room" "k \<notin> set room"
  shows "rooms s' r = Some room"
proof (cases "socketToRoom s k")
  case None
  with assms show ?thesis by (simp add: leave_None)
next
  case (Some q)
  from wf_mappedD[OF assms(1) Some] obtain qroom
    where q: "q \<noteq> []" "rooms s q = Some qroom" "k \<in> set qroom"
    by blast
  then have "q \<noteq> r" using assms(3,4) by auto
  then show ?thesis
    using assms(2,3) by (auto simp: leave_member[OF Some q(1,2)])
qed

lemma cleanup_users_keeps_unmapped:
  "cleanup_users now ps s = (s', out) \<Longrightarrow> socketToRoom s y = None \<Longrightarrow> socketToRoom s' y = None"
proof (induction ps arbitrary: s s' out)
  case Nil
  then show ?case by simp
next
  case (Cons e ps)
  obtain k q where e: "e = (k, q)" by (cases e)
  show ?case
  proof (cases "now - lastActivity q > maxInactiveTime")
    case False
    with Cons e show ?thesis by simp
  next
    case True
    define s1 where "s1 = s\<lparr>userProfiles := map_delete (userProfiles s) k\<rparr>"
    obtain l s2 out1 where lv: "leaveCurrentRoom s1 k = (l, s2, out1)"
      by (cases "leaveCurrentRoom s1 k") auto
    obtain s3 out2 where rec: "cleanup_users now ps s2 = (s3, out2)"
      by (cases "cleanup_users now ps s2") auto
    have "socketToRoom s1 y = None" using Cons.prems(2) by (simp add: s1_def)
    then have "socketToRoom s2 y = None" using lv leave_keeps_unmapped by blast
    then have "socketToRoom s3 y = None" using rec Cons.IH by blast
    moreover have "s' = s3" using Cons.prems(1) True e lv rec by (simp add: s1_def)
    ultimately show ?thesis by simp
  qed
qed

lemma cleanup_users_keys:
  "cleanup_users now ps s = (s', out) \<Longrightarrow> fst ` set (userProfiles s') \<subseteq> fst ` set (userProfiles s)"
proof (induction ps arbitrary: s s' out)
  case Nil
  then show ?case by simp
next
  case (Cons e ps)
  obtain k q where e: "e = (k, q)" by (cases e)
  show ?case
  proof (cases "now - lastActivity q > maxInactiveTime")
    case False
    with Cons e show ?thesis by simp
  next
    case True
    define s1 where "s1 = s\<lparr>userProfiles := map_delete (userProfiles s) k\<rparr>"
    obtain l s2 out1 where lv: "leaveCurrentRoom s1 k = (l, s2, out1)"
      by (cases "leaveCurrentRoom s1 k") auto
    obtain s3 out2 where rec: "cleanup_users now ps s2 = (s3, out2)"
      by (cases "cleanup_users now ps s2") auto
    have "fst ` set (userProfiles s2) \<subseteq> fst ` set (userProfiles s)"
      using leave_userProfiles[OF lv] by (auto simp: s1_def map_delete_def)
    moreover have "fst ` set (userProfiles s3) \<subseteq> fst ` set (userProfiles s2)"
      using rec by (rule Cons.IH)
    moreover have "s' = s3" using Cons.prems(1) True e lv rec by (simp add: s1_def)
    ultimately show ?thesis by blast
  qed
qed

lemma cleanup_users_evicts:
  assumes "wf s" "(sid, p) \<in> set ps" "stale now p" "cleanup_users now ps s = (s', out)"
  shows "sid \<notin> fst ` set (userProfiles s') \<and> socketToRoom s' sid = None"
  using assms
proof (induction ps arbitrary: s s' out)
  case Nil
  then show ?case by simp
next
  case (Cons e ps)
  obtain k q where e: "e = (k, q)" by (cases e)
  show ?case
  proof (cases "now - lastActivity q > maxInactiveTime")
    case False
    then have "(sid, p) \<in> set ps" using Cons.prems(2,3) e by (auto simp: stale_def)
    moreover have "cleanup_users now ps s = (s', out)" using Cons.prems(4) False e by simp
    ultimately show ?thesis using Cons.IH Cons.prems(1,3) by blast
  next
    case True
    define s1 where "s1 = s\<lparr>userProfiles := map_delete (userProfiles s) k\<rparr>"
    obtain l s2 out1 where lv: "leaveCurrentRoom s1 k = (l, s2, out1)"
      by (cases "leaveCurrentRoom s1 k") auto
    obtain s3 out2 where rec: "cleanup_users now ps s2 = (s3, out2)"
      by (cases "cleanup_users now ps s2") auto
    have s': "s' = s3" using Cons.prems(4) True e lv rec by (simp add: s1_def)
    have wf1: "wf s1" using Cons.prems(1) by (rule wf_cong) (simp_all add: s1_def)
    have wf2: "wf s2" using wf1 lv by (rule wf_leave)
    show ?thesis
    proof (cases "k = sid")
      case True
      have "socketToRoom s2 sid = None" using leave_unmapped[OF wf1 lv] True by simp
      then have "socketToRoom s3 sid = None" using rec cleanup_users_keeps_unmapped by blast
      moreover have "sid \<notin> fst ` set (userProfiles s2)"
        using leave_userProfiles[OF lv] True by (auto simp: s1_def map_delete_def)
      then have "sid \<notin> fst ` set (userProfiles s3)" using cleanup_users_keys[OF rec] by blast
      ultimately show ?thesis using s' by simp
    next
      case False
      then have "(sid, p) \<in> set ps" using Cons.prems(2) e by auto
      then show ?thesis using Cons.IH[OF wf2 _ Cons.prems(3) rec] s' by simp
    qed
  qed
qed

lemma map_fst_map_set:
  "fst ` set (map_set kvs k v) = insert k (fst ` set kvs)"
proof (induction kvs)
  case Nil
  then show ?case by simp
next
  case (Cons e kvs)
  obtain k' v' where e: "e = (k', v')" by (cases e)
  show ?case
  proof (cases "k' = k")
    case True
    then show ?thesis by (simp add: e)
  next
    case False
    then have "fst ` set (map_set (e # kvs) k v) = insert k' (fst ` set (map_set kvs k v))"
      by (simp add: e)
    also have "\<dots> = insert k' (insert k (fst ` set kvs))" by (simp only: Cons.IH)
    finally show ?thesis by (auto simp: e)
  qed
qed

lemma distinct_map_set:
  "distinct (map fst kvs) \<Longrightarrow> distinct (map fst (map_set kvs k v))"
proof (induction kvs)
  case Nil
  then show ?case by simp
next
  case (Cons e kvs)
  obtain k' v' where e: "e = (k', v')" by (cases e)
  show ?case
  proof (cases "k' = k")
    case True
    with Cons e show ?thesis by simp
  next
    case False
    have "k' \<notin> set (map fst (map_set kvs k v))"
      using Cons.prems False e by (simp add: map_fst_map_set)
    with Cons e False show ?thesis by simp
  qed
qed

lemma map_fst_update_profile: "map fst (update_profile f sid ps) = map fst ps"
  by (induction ps) (auto simp: update_profile_def)

lemma distinct_map_delete:
  "distinct (map fst kvs) \<Longrightarrow> distinct (map fst (map_delete kvs k))"
  by (simp add: map_delete_def distinct_map_filter)

lemma room_join_userProfiles:
  "map fst (userProfiles (fst (room_join ucd s sid now v))) = map fst (userProfiles s)"
proof (cases "\<exists>raw. v = String raw \<and> trim raw \<noteq> []")
  case False
  then show ?thesis by (simp add: room_join_invalid)
next
  case True
  then obtain raw where v: "v = String raw" and t: "trim raw \<noteq> []" by blast
  then have raw: "trim raw \<noteq> []" "raw \<noteq> []" by (auto simp: trim_def)
  obtain l s1 out1 where lv: "leaveCurrentRoom s sid = (l, s1, out1)"
    by (cases "leaveCurrentRoom s sid") auto
  show ?thesis
    using raw lv leave_userProfiles[OF lv]
    by (simp add: v room_join_def Let_def map_fst_update_profile)
qed

lemma cleanup_users_distinct:
  "distinct (map fst (userProfiles s)) \<Longrightarrow> cleanup_users now ps s = (s', out) \<Longrightarrow>
     distinct (map fst (userProfiles s'))"
proof (induction ps arbitrary: s s' out)
  case Nil
  then show ?case by simp
next
  case (Cons e ps)
  obtain k q where e: "e = (k, q)" by (cases e)
  show ?case
  proof (cases "now - lastActivity q > maxInactiveTime")
    case False
    with Cons e show ?thesis by simp
  next
    case True
    define s1 where "s1 = s\<lparr>userProfiles := map_delete (userProfiles s) k\<rparr>"
    obtain l s2 out1 where lv: "leaveCurrentRoom s1 k = (l, s2, out1)"
      by (cases "leaveCurrentRoom s1 k") auto
    obtain s3 out2 where rec: "cleanup_users now ps s2 = (s3, out2)"
      by (cases "cleanup_users now ps s2") auto
    have "distinct (map fst (userProfiles s2))"
      using leave_userProfiles[OF lv] Cons.prems(1) by (simp add: s1_def distinct_map_delete)
    then have "distinct (map fst (userProfiles s3))" using rec by (rule Cons.IH)
    moreover have "s' = s3" using Cons.prems(2) True e lv rec by (simp add: s1_def)
    ultimately show ?thesis by simp
  qed
qed

lemma distinct_step:
  assumes "distinct (map fst (userProfiles s))" "step ucd s now i = Inr (s', out)"
  shows "distinct (map fst (userProfiles s'))"
proof (cases i)
  case (Connect sid)
  with assms show ?thesis by (auto simp: connection_def distinct_map_set)
next
  case (RoomJoinMsg sid payload)
  with assms(2) obtain field where "room_join ucd s sid now (field ''roomId'') = (s', out)"
    by (auto dest!: with_fields_Inr)
  then show ?thesis
    using room_join_userProfiles[of ucd s sid now "field ''roomId''"] assms(1) by simp
next
  case (OutgoingCallMsg sid payload)
  with assms show ?thesis
    by (auto dest!: with_fields_Inr simp: outgoing_call_def Let_def split: if_splits)
next
  case (CallAcceptedMsg sid payload)
  with assms show ?thesis
    by (auto dest!: with_fields_Inr simp: call_accepted_def split: if_splits)
next
  case (IceCandidateMsg sid payload)
  with assms show ?thesis
    by (auto dest!: with_fields_Inr simp: ice_candidate_def split: if_splits)
next
  case (CallEndedMsg sid payload)
  with assms show ?thesis
    by (auto dest!: with_fields_Inr simp: call_ended_def split: if_splits)
next
  case (PingMsg sid)
  with assms show ?thesis by (auto simp: ping_def map_fst_update_profile)
next
  case (UserActivityMsg sid data)
  with assms show ?thesis by (auto simp: user_activity_def map_fst_update_profile)
next
  case (Disconnect sid reason)
  obtain l s1 out1 where lv: "leaveCurrentRoom s sid = (l, s1, out1)"
    by (cases "leaveCurrentRoom s sid") auto
  have "userProfiles s' = map_delete (userProfiles s) sid"
    using assms(2) Disconnect lv leave_userProfiles[OF lv] by (auto simp: disconnect_def Let_def)
  then show ?thesis using assms(1) by (simp add: distinct_map_delete)
next
  case CleanupTick
  obtain s1 out1 where cu: "cleanup_users now (userProfiles s) s = (s1, out1)"
    by (cases "cleanup_users now (userProfiles s) s") auto
  have "userProfiles s' = userProfiles s1"
    using assms(2) CleanupTick cu by (auto simp: cleanupInterval_def cleanup_rooms_def)
  then show ?thesis using cleanup_users_distinct[OF assms(1) cu] by simp
qed

lemma reachable_distinct_profiles: "reachable ucd s \<Longrightarrow> distinct (map fst (userProfiles s))"
  by (induction rule: reachable.induct) (auto simp: init_def intro: distinct_step)

lemma cleanup_users_notifies_peer:
  assumes "wf s" "sid \<notin> fst ` set before" "stale now p"
    and "rooms s r = Some room" "sid \<in> set room" "peer \<in> set room" "peer \<noteq> sid"
    and "\<forall>q. (peer, q) \<in> set before \<longrightarrow> \<not> stale now q"
    and "cleanup_users now (before @ (sid, p) # after) s = (s', out)"
  shows "(Io_to peer, UserLeft sid r 1) \<in> set out"
  using assms
proof (induction before arbitrary: s s' out)
  case Nil
  obtain l s2 out1 where lv: "leaveCurrentRoom (s\<lparr>userProfiles := map_delete (userProfiles s) sid\<rparr>) sid = (l, s2, out1)"
    by (cases "leaveCurrentRoom (s\<lparr>userProfiles := map_delete (userProfiles s) sid\<rparr>) sid") auto
  obtain s3 out2 where rec: "cleanup_users now after s2 = (s3, out2)"
    by (cases "cleanup_users now after s2") auto
  have wf1: "wf (s\<lparr>userProfiles := map_delete (userProfiles s) sid\<rparr>)"
    using Nil.prems(1) by (rule wf_cong) simp_all
  have "out1 = [(Io_to peer, UserLeft sid r 1)]"
    using leave_pair[OF wf1 _ Nil.prems(5,6)] Nil.prems(4,7) lv by simp
  moreover have "out = out1 @ out2"
    using Nil.prems(3,9) lv rec by (simp add: stale_def)
  ultimately show ?case by simp
next
  case (Cons e before)
  obtain k q where e: "e = (k, q)" by (cases e)
  have ks: "k \<noteq> sid" "sid \<notin> fst ` set before" using Cons.prems(2) e by auto
  have later: "\<forall>q. (peer, q) \<in> set before \<longrightarrow> \<not> stale now q" using Cons.prems(8) by simp
  show ?case
  proof (cases "now - lastActivity q > maxInactiveTime")
    case False
    then have "cleanup_users now (before @ (sid, p) # after) s = (s', out)"
      using Cons.prems(9) e by simp
    then show ?thesis
      by (rule Cons.IH[OF Cons.prems(1) ks(2) Cons.prems(3-7) later])
  next
    case True
    define s1 where "s1 = s\<lparr>userProfiles := map_delete (userProfiles s) k\<rparr>"
    obtain l s2 out1 where lv: "leaveCurrentRoom s1 k = (l, s2, out1)"
      by (cases "leaveCurrentRoom s1 k") auto
    obtain s3 out2 where rec: "cleanup_users now (before @ (sid, p) # after) s2 = (s3, out2)"
      by (cases "cleanup_users now (before @ (sid, p) # after) s2") auto
    have out: "out = out1 @ out2" using Cons.prems(9) True e lv rec by (simp add: s1_def)
    have wf1: "wf s1" using Cons.prems(1) by (rule wf_cong) (simp_all add: s1_def)
    have wf2: "wf s2" using wf1 lv by (rule wf_leave)
    have r1: "rooms s1 r = Some room" using Cons.prems(4) by (simp add: s1_def)
    have "k \<noteq> peer" using Cons.prems(8) True e by (auto simp: stale_def)
    have "set room = {sid, peer}"
      using pair_room[of room sid peer] wf_roomD[OF wf1 r1] Cons.prems(5,6,7) by auto
    then have "k \<notin> set room" using ks(1) \<open>k \<noteq> peer\<close> by simp
    then have r2: "rooms s2 r = Some room" using leave_other_room[OF wf1 lv r1] by simp
    have "(Io_to peer, UserLeft sid r 1) \<in> set out2"
      by (rule Cons.IH[OF wf2 ks(2) Cons.prems(3) r2 Cons.prems(5,6,7) later rec])
    then show ?thesis using out by simp
  qed
qed

text \<open>
  Claim C9 says that the sweep notifies the room peer of every stale connection that
  held a room. When both members of a room are stale, the one that comes first in
  \<open>userProfiles\<close> leaves first and the other is notified; when the other leaves in its
  turn the room has no member left to notify. In the session, at a time when \<open>c1\<close> and
  \<open>c2\<close> are both stale, the sweep emits the departure of \<open>c1\<close> to \<open>c2\<close> and nothing for the
  departure of \<open>c2\<close>.
\<close>

theorem idle_reaper_peer_counterexample:
  "reachable no_ucd demo2 \<and>
   userProfiles demo2 =
     [(c1, \<lparr>connectedAt = 0, lastActivity = 2000,
            currentRoom = Some room_demo, activity = None\<rparr>),
      (c2, \<lparr>connectedAt = 1000, lastActivity = 3000,
            currentRoom = Some room_demo, activity = None\<rparr>)] \<and>
   stale 1803001 \<lparr>connectedAt = 1000, lastActivity = 3000,
                   currentRoom = Some room_demo, activity = None\<rparr> \<and>
   rooms demo2 room_demo = Some [c1, c2] \<and>
   snd (cleanupInterval demo2 1803001) = [(Io_to c2, UserLeft c1 room_demo 1)] \<and>
   userProfiles (fst (cleanupInterval demo2 1803001)) = []"
  using reachable_demo2
  by (simp add: stale_def demo2_state session_ids handler_defs)

text \<open>
  Claim C9 as amended. In a reachable state, a connection that is tracked in
  \<open>userProfiles\<close> with a last activity more than \<open>maxInactiveTime\<close> before the current time
  is, after one run of the cleanup, no longer tracked, no longer mapped to a room and in
  no room. When it was in a room with a peer, and the run has not evicted that peer
  before it (no entry of the peer that comes earlier in \<open>userProfiles\<close> is stale), the run
  emits \<open>user:left\<close> for it to the peer, as any other departure would.
\<close>

theorem idle_reaper_evicts:
  assumes "reachable ucd s" "userProfiles s = before @ (sid, p) # after" "stale now p"
    and "cleanupInterval s now = (s', out)"
  shows "sid \<notin> fst ` set (userProfiles s') \<and> socketToRoom s' sid = None \<and>
         (\<forall>r room. rooms s' r = Some room \<longrightarrow> sid \<notin> set room) \<and>
         (\<forall>r room peer.
            rooms s r = Some room \<and> sid \<in> set room \<and> peer \<in> set room \<and> peer \<noteq> sid \<and>
            (\<forall>q. (peer, q) \<in> set before \<longrightarrow> \<not> stale now q) \<longrightarrow>
            (Io_to peer, UserLeft sid r 1) \<in> set out)"
proof -
  have wf: "wf s" using assms(1) by (rule reachable_wf)
  have "distinct (map fst (userProfiles s))" using assms(1) by (rule reachable_distinct_profiles)
  then have fresh: "sid \<notin> fst ` set before" using assms(2) by auto
  have tracked: "(sid, p) \<in> set (userProfiles s)" using assms(2) by simp
  obtain s1 out1 where cu: "cleanup_users now (userProfiles s) s = (s1, out1)"
    by (cases "cleanup_users now (userProfiles s) s") auto
  have wf1: "wf s1" by (rule wf_cleanup_users[OF wf cu])
  have s': "s' = s1" "out = out1"
    using assms(4) cu cleanup_rooms_wf_id[OF wf1] by (simp_all add: cleanupInterval_def)
  have ev: "sid \<notin> fst ` set (userProfiles s1) \<and> socketToRoom s1 sid = None"
    by (rule cleanup_users_evicts[OF wf tracked assms(3) cu])
  have "sid \<notin> set room" if "rooms s1 r = Some room" for r room
    using wf_memberD[OF wf1 that, of sid] ev by auto
  moreover have "(Io_to peer, UserLeft sid r 1) \<in> set out1"
    if "rooms s r = Some room" "sid \<in> set room" "peer \<in> set room" "peer \<noteq> sid"
      "\<forall>q. (peer, q) \<in> set before \<longrightarrow> \<not> stale now q" for r room peer
    by (rule cleanup_users_notifies_peer[OF wf fresh assms(3) that cu[unfolded assms(2)]])
  ultimately show ?thesis using ev s' by blast
qed

theorem idle_reaper_evicts_witness:
  "c1 \<notin> fst ` set (userProfiles (fst (cleanupInterval demo2 1802500))) \<and>
   socketToRoom (fst (cleanupInterval demo2 1802500)) c1 = None \<and>
   (Io_to c2, UserLeft c1 room_demo 1) \<in> set (snd (cleanupInterval demo2 1802500))"
proof -
  define p where "p = \<lparr>connectedAt = 0, lastActivity = 2000,
                        currentRoom = Some room_demo, activity = None\<rparr>"
  define q where "q = \<lparr>connectedAt = 1000, lastActivity = 3000,
                        currentRoom = Some room_demo, activity = None\<rparr>"
  have tracked: "userProfiles demo2 = [] @ (c1, p) # [(c2, q)]"
    by (simp add: demo2_state session_ids p_def q_def)
  have old: "stale 1802500 p"
    by (simp add: stale_def maxInactiveTime_def p_def)
  have run: "cleanupInterval demo2 1802500 =
               (fst (cleanupInterval demo2 1802500), snd (cleanupInterval demo2 1802500))"
    by (simp add: session_ids)
  have peer: "rooms demo2 room_demo = Some [c1, c2] \<and> c1 \<in> set [c1, c2] \<and>
              c2 \<in> set [c1, c2] \<and> c2 \<noteq> c1 \<and>
              (\<forall>q. (c2, q) \<in> set [] \<longrightarrow> \<not> stale 1802500 q)"
    by (simp add: demo2_state session_ids)
  from idle_reaper_evicts[OF reachable_demo2 tracked old run] peer
  show ?thesis by blast
qed

end
